theory Spec2Isabelle
  imports Complex_Main "HOL-Library.Word" "HOL-Library.Sublist"
begin

unbundle bit_operations_syntax

section \<open>The image packer \<^verbatim>\<open>tohex.py\<close>\<close>

text \<open>
  The script reads \<^verbatim>\<open>image.data\<close> as bytes, derives one bit per pixel (is the first
  byte of the triplet 255?), packs 64 bits per word and writes the words as hexadecimal
  literals to \<^verbatim>\<open>data.txt\<close>.  Python integers are modelled as \<open>int\<close>, the bytes
  object as a list of 8-bit words, text as \<open>string\<close>, and every exception the
  statements can raise as a value of \<open>py_error\<close>.
\<close>

subsection \<open>Python primitives used by the script\<close>

type_synonym byte = "8 word"

datatype py_error = IndexError | ValueError | OSError

text \<open>\<^verbatim>\<open>data[k]\<close> on a bytes object: negative indices count from the end, an index
  out of range raises \<^verbatim>\<open>IndexError\<close>.\<close>

definition getitem :: "byte list \<Rightarrow> int \<Rightarrow> py_error + byte" where
  "getitem data k =
     (let n = int (length data); j = (if k < 0 then n + k else k)
      in if 0 \<le> j \<and> j < n then Inr (data ! nat j) else Inl IndexError)"

text \<open>\<^verbatim>\<open>a << n\<close> on Python integers: a negative shift count raises \<^verbatim>\<open>ValueError\<close>.\<close>

definition lshift :: "int \<Rightarrow> int \<Rightarrow> py_error + int" where
  "lshift a n = (if n < 0 then Inl ValueError else Inr (push_bit (nat n) a))"

definition hex_digit :: "nat \<Rightarrow> char" where
  "hex_digit d = ''0123456789ABCDEF'' ! d"

text \<open>The digits of \<^verbatim>\<open>format(n, 'X')\<close> for a natural number, most significant first.\<close>

fun hex_upper :: "nat \<Rightarrow> string" where
  "hex_upper n =
     (if n < 16 then [hex_digit n] else hex_upper (n div 16) @ [hex_digit (n mod 16)])"

declare hex_upper.simps [simp del]

definition zfill :: "nat \<Rightarrow> string \<Rightarrow> string" where
  "zfill w s = replicate (w - length s) (CHR ''0'') @ s"

text \<open>\<^verbatim>\<open>'{:016X}'.format(v)\<close>: uppercase hexadecimal, padded with zeros after the sign to
  a total width of at least 16; longer numbers are not truncated.\<close>

definition format_016X :: "int \<Rightarrow> string" where
  "format_016X v =
     (if v < 0 then CHR ''-'' # zfill 15 (hex_upper (nat (- v)))
      else zfill 16 (hex_upper (nat v)))"

text \<open>\<^verbatim>\<open>hexList.write(s)\<close>: the environment decides whether the write succeeds (given
  the text already written and the new text); on success the text is appended.\<close>

definition file_write :: "(string \<Rightarrow> string \<Rightarrow> bool) \<Rightarrow> string \<Rightarrow> string \<Rightarrow> py_error + string" where
  "file_write ok f s = (if ok f s then Inr (f @ s) else Inl OSError)"

subsection \<open>The packing loop (lines 8 to 21)\<close>

text \<open>The local variables of the loop; \<open>hexList\<close> stands for the text written to the
  output file so far.  In \<open>loop_body\<close> the source's variable \<^verbatim>\<open>value\<close> is written
  \<open>val\<close>, and the updated \<^verbatim>\<open>bits\<close> and \<^verbatim>\<open>numBits\<close> are primed.\<close>

record state =
  comma :: string
  numBits :: int
  bits :: int
  hexList :: string

definition loop_body ::
  "(string \<Rightarrow> string \<Rightarrow> bool) \<Rightarrow> byte list \<Rightarrow> int \<Rightarrow> int \<Rightarrow> state \<Rightarrow> py_error + state" where
  "loop_body ok data numPixels i s =
     (case getitem data (3 * i) of
        Inl e \<Rightarrow> Inl e
      | Inr b \<Rightarrow>
          (let val = (if b = 255 then 1 else 0) in
           case lshift val (numBits s) of
             Inl e \<Rightarrow> Inl e
           | Inr sh \<Rightarrow>
               (let bits' = bits s OR sh;
                    numBits' = numBits s + 1
                in if numBits' = 64 \<or> i = numPixels - 1 then
                     (let hexStr = comma s @ ''0x'' @ format_016X bits' in
                      case file_write ok (hexList s) hexStr of
                        Inl e \<Rightarrow> Inl e
                      | Inr f \<Rightarrow>
                          Inr \<lparr>comma = '', '', numBits = 0, bits = 0, hexList = f\<rparr>)
                   else Inr (s\<lparr>numBits := numBits', bits := bits'\<rparr>))))"

text \<open>A \<^verbatim>\<open>for\<close> loop over a list of indices; an exception in the body ends the loop.\<close>

fun for_loop :: "(int \<Rightarrow> state \<Rightarrow> py_error + state) \<Rightarrow> int list \<Rightarrow> state \<Rightarrow> py_error + state" where
  "for_loop f [] s = Inr s"
| "for_loop f (i # is) s = (case f i s of Inl e \<Rightarrow> Inl e | Inr s' \<Rightarrow> for_loop f is s')"

definition init_state :: state where
  "init_state = \<lparr>comma = '''', numBits = 0, bits = 0, hexList = ''''\<rparr>"

definition pack :: "(string \<Rightarrow> string \<Rightarrow> bool) \<Rightarrow> byte list \<Rightarrow> py_error + state" where
  "pack ok data =
     (let numPixels = int (length data) div 3
      in for_loop (loop_body ok data numPixels) [0..numPixels - 1] init_state)"

subsection \<open>The whole script, with its two file handles\<close>

text \<open>The environment: whether each file operation succeeds, and the bytes of the input
  file.  For a write the environment decides from the text already written and the text of
  the call.\<close>

record env =
  open_image_ok :: bool
  image_data :: "byte list"
  read_ok :: bool
  close_image_ok :: bool
  open_out_ok :: bool
  write_ok :: "string \<Rightarrow> string \<Rightarrow> bool"
  close_out_ok :: bool

text \<open>The state of the script between statements: which handles are open, the variable
  \<^verbatim>\<open>data\<close>, and either the exception raised or the text written to \<^verbatim>\<open>data.txt\<close>.\<close>

record outcome =
  rawImage_open :: bool
  hexList_open :: bool
  data_read :: "byte list"
  result :: "py_error + string"

text \<open>Line 2, \<^verbatim>\<open>rawImage = open('image.data', 'rb')\<close>.\<close>

definition open_rawImage :: "env \<Rightarrow> outcome \<Rightarrow> outcome" where
  "open_rawImage e w =
     (if open_image_ok e then w\<lparr>rawImage_open := True\<rparr> else w\<lparr>result := Inl OSError\<rparr>)"

text \<open>Line 3, \<^verbatim>\<open>data = rawImage.read()\<close>.\<close>

definition read_rawImage :: "env \<Rightarrow> outcome \<Rightarrow> outcome" where
  "read_rawImage e w =
     (if read_ok e then w\<lparr>data_read := image_data e\<rparr> else w\<lparr>result := Inl OSError\<rparr>)"

text \<open>Line 4, \<^verbatim>\<open>rawImage.close()\<close>.  A close releases the handle also when it raises.\<close>

definition close_rawImage :: "env \<Rightarrow> outcome \<Rightarrow> outcome" where
  "close_rawImage e w =
     (if close_image_ok e then w\<lparr>rawImage_open := False\<rparr>
      else w\<lparr>rawImage_open := False, result := Inl OSError\<rparr>)"

text \<open>Line 6, \<^verbatim>\<open>hexList = open('data.txt', 'w')\<close>: the file is created or truncated.\<close>

definition open_hexList :: "env \<Rightarrow> outcome \<Rightarrow> outcome" where
  "open_hexList e w =
     (if open_out_ok e then w\<lparr>hexList_open := True, result := Inr ''''\<rparr>
      else w\<lparr>result := Inl OSError\<rparr>)"

text \<open>Lines 8 to 21, the loop on the bytes read.\<close>

definition run_loop :: "env \<Rightarrow> outcome \<Rightarrow> outcome" where
  "run_loop e w =
     (case pack (write_ok e) (data_read w) of
        Inl err \<Rightarrow> w\<lparr>result := Inl err\<rparr>
      | Inr s \<Rightarrow> w\<lparr>result := Inr (hexList s)\<rparr>)"

text \<open>Line 23, \<^verbatim>\<open>hexList.close()\<close>, which flushes what is buffered and so can raise.\<close>

definition close_hexList :: "env \<Rightarrow> outcome \<Rightarrow> outcome" where
  "close_hexList e w =
     (if close_out_ok e then w\<lparr>hexList_open := False\<rparr>
      else w\<lparr>hexList_open := False, result := Inl OSError\<rparr>)"

text \<open>Statements run in order.  There is no exception handler in the script, so the
  first statement that raises ends it and the statements after it are not executed.\<close>

fun run_stmts :: "(outcome \<Rightarrow> outcome) list \<Rightarrow> outcome \<Rightarrow> outcome" where
  "run_stmts [] w = w"
| "run_stmts (stmt # rest) w =
     (let w' = stmt w in case result w' of Inl err \<Rightarrow> w' | Inr t \<Rightarrow> run_stmts rest w')"

definition main :: "env \<Rightarrow> outcome" where
  "main e =
     run_stmts
       [open_rawImage e, read_rawImage e, close_rawImage e,
        open_hexList e, run_loop e, close_hexList e]
       \<lparr>rawImage_open = False, hexList_open = False, data_read = [], result = Inr ''''\<rparr>"

text \<open>A run on input bytes \<open>data\<close> in which no file operation fails.\<close>

definition io_ok :: "byte list \<Rightarrow> env" where
  "io_ok data =
     \<lparr>open_image_ok = True, image_data = data, read_ok = True, close_image_ok = True,
      open_out_ok = True, write_ok = (\<lambda>_ _. True), close_out_ok = True\<rparr>"

definition tohex :: "byte list \<Rightarrow> py_error + string" where
  "tohex data = result (main (io_ok data))"

subsection \<open>Reading the output text\<close>

text \<open>\<^verbatim>\<open>sep.join(ws)\<close>.\<close>

fun join_sep :: "string \<Rightarrow> string list \<Rightarrow> string" where
  "join_sep sep [] = []"
| "join_sep sep [w] = w"
| "join_sep sep (w # v # ws) = w @ sep @ join_sep sep (v # ws)"

text \<open>The text cut at every occurrence of the separator \<^verbatim>\<open>', '\<close>; the empty text holds
  no word.\<close>

fun split_words :: "string \<Rightarrow> string list" where
  "split_words [] = [[]]"
| "split_words [c] = [[c]]"
| "split_words (c # d # cs) =
     (if c = CHR '','' \<and> d = CHR '' '' then [] # split_words cs
      else (case split_words (d # cs) of [] \<Rightarrow> [[c]] | w # ws \<Rightarrow> (c # w) # ws))"

definition emitted_words :: "string \<Rightarrow> string list" where
  "emitted_words out = (if out = [] then [] else split_words out)"

definition digit_value :: "char \<Rightarrow> nat" where
  "digit_value c = length (takeWhile (\<lambda>d. d \<noteq> c) ''0123456789ABCDEF'')"

text \<open>The number a word \<^verbatim>\<open>0x...\<close> denotes: its digits after the two-character prefix,
  read in base 16.\<close>

definition hex_value :: "string \<Rightarrow> int" where
  "hex_value w = foldl (\<lambda>a c. 16 * a + int (digit_value c)) 0 (drop 2 w)"

subsection \<open>The packed words in closed form\<close>

text \<open>The specification's description of the result: pixel \<open>i\<close> contributes the bit
  "red channel is 255", and word \<open>k\<close> holds the bits of pixels \<open>64 k\<close> to \<open>64 k + 63\<close>,
  least significant first.\<close>

definition hex_word :: "int \<Rightarrow> string" where
  "hex_word v = ''0x'' @ format_016X v"

definition red_flags :: "byte list \<Rightarrow> bool list" where
  "red_flags data = map (\<lambda>i. data ! (3 * i) = 255) [0..<length data div 3]"

definition packed_word :: "byte list \<Rightarrow> nat \<Rightarrow> int" where
  "packed_word data k = horner_sum of_bool 2 (take 64 (drop (64 * k) (red_flags data)))"

definition packed_words :: "byte list \<Rightarrow> int list" where
  "packed_words data = map (packed_word data) [0..<(length data div 3 + 63) div 64]"

text \<open>The state of the loop at the top of iteration \<open>i\<close>, and after the loop.\<close>

definition state_at :: "byte list \<Rightarrow> nat \<Rightarrow> state" where
  "state_at data i =
     \<lparr>comma = (if i < 64 then '''' else '', ''),
      numBits = int (i mod 64),
      bits = horner_sum of_bool 2 (take (i mod 64) (drop (64 * (i div 64)) (red_flags data))),
      hexList = join_sep '', '' (map hex_word (map (packed_word data) [0..<i div 64]))\<rparr>"

definition final_state :: "byte list \<Rightarrow> state" where
  "final_state data =
     \<lparr>comma = (if length data div 3 = 0 then '''' else '', ''),
      numBits = 0, bits = 0,
      hexList = join_sep '', '' (map hex_word (packed_words data))\<rparr>"

text \<open>The write oracle of a run in which every write succeeds.\<close>

definition always_ok :: "string \<Rightarrow> string \<Rightarrow> bool" where
  "always_ok f s = True"

text \<open>The sixteen characters an uppercase hexadecimal digit can be.\<close>

definition hex_digits :: "char set" where
  "hex_digits = set ''0123456789ABCDEF''"

text \<open>Reading digits in base 16, continuing from the value \<open>a\<close>.\<close>

definition hex_parse :: "int \<Rightarrow> string \<Rightarrow> int" where
  "hex_parse a ds = foldl (\<lambda>a c. 16 * a + int (digit_value c)) a ds"

text \<open>The calls of \<^verbatim>\<open>write\<close> the loop makes when none of them fails: call \<open>k\<close> finds the
  first \<open>k\<close> words in the file, and writes word \<open>k\<close> after the separator, if it is not the
  first.\<close>

definition written_before :: "byte list \<Rightarrow> nat \<Rightarrow> string" where
  "written_before data k = join_sep '', '' (map hex_word (map (packed_word data) [0..<k]))"

definition write_piece :: "byte list \<Rightarrow> nat \<Rightarrow> string" where
  "write_piece data k = (if k = 0 then [] else '', '') @ hex_word (packed_word data k)"

definition writes_ok :: "(string \<Rightarrow> string \<Rightarrow> bool) \<Rightarrow> byte list \<Rightarrow> bool" where
  "writes_ok ok data =
     list_all (\<lambda>k. ok (written_before data k) (write_piece data k))
       [0..<length (packed_words data)]"

section \<open>The loop computes the packed words\<close>

lemmas script_defs =
  main_def open_rawImage_def read_rawImage_def close_rawImage_def open_hexList_def
  run_loop_def close_hexList_def Let_def

lemma join_sep_snoc:
  "join_sep sep (ws @ [w]) = join_sep sep ws @ (if ws = [] then [] else sep) @ w"
  by (induction sep ws rule: join_sep.induct) auto

lemma horner_take_Suc:
  assumes "m < length xs"
  shows "(horner_sum of_bool 2 (take m xs) :: int) OR push_bit m (if xs ! m then 1 else 0)
         = horner_sum of_bool 2 (take (Suc m) xs)"
  using assms
  by (auto intro!: bit_eqI simp add: bit_simps less_Suc_eq)

lemma length_red_flags [simp]: "length (red_flags data) = length data div 3"
  by (simp add: red_flags_def)

lemma nth_red_flags: "i < length data div 3 \<Longrightarrow> red_flags data ! i = (data ! (3 * i) = 255)"
  by (simp add: red_flags_def)

lemma getitem_red: "i < length data div 3 \<Longrightarrow> getitem data (3 * int i) = Inr (data ! (3 * i))"
  by (auto simp add: getitem_def Let_def nat_mult_distrib)

lemma step_bits:
  assumes "i < length data div 3"
  shows "bits (state_at data i) OR push_bit (i mod 64) (if data ! (3 * i) = 255 then 1 else 0)
     = horner_sum of_bool 2 (take (Suc (i mod 64)) (drop (64 * (i div 64)) (red_flags data)))"
proof -
  define q where "q = i div 64"
  define r where "r = i mod 64"
  have i: "i = 64 * q + r" by (simp add: q_def r_def)
  let ?xs = "drop (64 * q) (red_flags data)"
  have len: "r < length ?xs" using assms i by simp
  have "?xs ! r = red_flags data ! i" using assms i by simp
  then have nth: "?xs ! r = (data ! (3 * i) = 255)"
    using assms by (simp only: nth_red_flags)
  have "bits (state_at data i) = horner_sum of_bool 2 (take r ?xs)"
    by (simp add: state_at_def q_def r_def)
  then show ?thesis using horner_take_Suc [OF len] nth
    unfolding q_def [symmetric] r_def [symmetric] by simp
qed

lemma lshift_nat: "lshift v (int r) = Inr (push_bit r v)"
  by (simp add: lshift_def)

lemma loop_body_unfold:
  assumes "i < length data div 3"
  shows "loop_body always_ok data n (int i) (state_at data i) =
     (let B = horner_sum of_bool 2 (take (Suc (i mod 64)) (drop (64 * (i div 64)) (red_flags data)))
      in if int (i mod 64) + 1 = 64 \<or> int i = n - 1 then
           Inr \<lparr>comma = '', '', numBits = 0, bits = 0,
                hexList = hexList (state_at data i) @ comma (state_at data i) @ hex_word B\<rparr>
         else Inr ((state_at data i)\<lparr>numBits := int (i mod 64) + 1, bits := B\<rparr>))"
proof -
  have nb: "numBits (state_at data i) = int (i mod 64)" by (simp add: state_at_def)
  show ?thesis
    unfolding loop_body_def getitem_red [OF assms] nb lshift_nat
    by (simp add: Let_def step_bits [OF assms] file_write_def always_ok_def hex_word_def)
qed

lemma join_upt_Suc:
  "join_sep '', '' (map hex_word (map f [0..<q])) @ (if q = 0 then [] else '', '') @ hex_word (f q)
   = join_sep '', '' (map hex_word (map f [0..<Suc q]))"
  by (simp add: join_sep_snoc)

lemma step_mid:
  assumes "Suc i < length data div 3"
  shows "loop_body always_ok data (int (length data div 3)) (int i) (state_at data i)
       = Inr (state_at data (Suc i))"
proof -
  define q where "q = i div 64"
  define r where "r = i mod 64"
  have i: "i = 64 * q + r" and r: "r < 64" by (simp_all add: q_def r_def)
  have lt: "i < length data div 3" using assms by simp
  have notlast: "int i \<noteq> int (length data div 3) - 1" using assms by linarith
  have c: "(i < 64) = (q = 0)" using i r by auto
  show ?thesis
  proof (cases "r = 63")
    case True
    then have S: "Suc i = 64 * Suc q + 0" using i by simp
    have sd: "Suc i div 64 = Suc q" and sm: "Suc i mod 64 = 0"
      unfolding S by simp_all
    have tk: "take (Suc r) (drop (64 * q) (red_flags data)) = take 64 (drop (64 * q) (red_flags data))"
      using True by simp
    have "state_at data (Suc i) =
      \<lparr>comma = '', '', numBits = 0, bits = 0,
       hexList = join_sep '', '' (map hex_word (map (packed_word data) [0..<Suc q]))\<rparr>"
      unfolding state_at_def sd sm using S by simp
    moreover have "hexList (state_at data i) @ comma (state_at data i)
         @ hex_word (packed_word data q)
       = join_sep '', '' (map hex_word (map (packed_word data) [0..<Suc q]))"
      unfolding join_upt_Suc [symmetric]
      by (simp add: state_at_def c q_def [symmetric])
    ultimately show ?thesis
      unfolding loop_body_unfold [OF lt] q_def [symmetric] r_def [symmetric] tk
      using True by (simp add: Let_def packed_word_def)
  next
    case False
    then have r': "Suc r < 64" using r by simp
    have S: "Suc i = 64 * q + Suc r" using i by simp
    have sd: "Suc i div 64 = q" and sm: "Suc i mod 64 = Suc r"
      unfolding S using r' by simp_all
    have c': "(Suc i < 64) = (q = 0)" using S r' by auto
    have "state_at data (Suc i) = (state_at data i)\<lparr>numBits := int r + 1,
        bits := horner_sum of_bool 2 (take (Suc r) (drop (64 * q) (red_flags data)))\<rparr>"
      unfolding state_at_def sd sm c c' q_def [symmetric] r_def [symmetric] by simp
    then show ?thesis
      unfolding loop_body_unfold [OF lt] q_def [symmetric] r_def [symmetric]
      using False r notlast by (simp add: Let_def)
  qed
qed

lemma step_last:
  assumes "Suc i = length data div 3"
  shows "loop_body always_ok data (int (length data div 3)) (int i) (state_at data i)
       = Inr (final_state data)"
proof -
  define q where "q = i div 64"
  define r where "r = i mod 64"
  have i: "i = 64 * q + r" and r: "r < 64" by (simp_all add: q_def r_def)
  have lt: "i < length data div 3" using assms by simp
  have last: "int i = int (length data div 3) - 1" using assms by linarith
  have c: "(i < 64) = (q = 0)" using i r by auto
  have n: "length data div 3 = 64 * q + Suc r" using assms i by simp
  have "length data div 3 + 63 = 64 * Suc q + r" using n by simp
  then have cnt: "(length data div 3 + 63) div 64 = Suc q" using r by simp
  have "length (drop (64 * q) (red_flags data)) = Suc r" using n by simp
  then have tk: "take (Suc r) (drop (64 * q) (red_flags data)) = take 64 (drop (64 * q) (red_flags data))"
    using r by simp
  have "final_state data =
      \<lparr>comma = '', '', numBits = 0, bits = 0,
       hexList = join_sep '', '' (map hex_word (map (packed_word data) [0..<Suc q]))\<rparr>"
    unfolding final_state_def packed_words_def cnt using n by simp
  moreover have "hexList (state_at data i) @ comma (state_at data i)
         @ hex_word (packed_word data q)
       = join_sep '', '' (map hex_word (map (packed_word data) [0..<Suc q]))"
      unfolding join_upt_Suc [symmetric]
      by (simp add: state_at_def c q_def [symmetric])
  ultimately show ?thesis
    unfolding loop_body_unfold [OF lt] q_def [symmetric] r_def [symmetric] tk
    using last by (simp add: Let_def packed_word_def)
qed

lemma for_loop_append:
  "for_loop f (xs @ ys) s = (case for_loop f xs s of Inl e \<Rightarrow> Inl e | Inr s' \<Rightarrow> for_loop f ys s')"
  by (induction xs arbitrary: s) (auto split: sum.splits)

lemma upto_snoc: "[0..int (Suc i) - 1] = [0..int i - 1] @ [int i]"
  using upto_rec2 [of 0 "int i"] by simp

lemma state_at_0: "state_at data 0 = init_state"
  by (simp add: state_at_def init_state_def)

lemma loop_prefix:
  "i < length data div 3 \<Longrightarrow>
   for_loop (loop_body always_ok data (int (length data div 3))) [0..int i - 1] init_state
     = Inr (state_at data i)"
proof (induction i)
  case 0
  then show ?case by (simp add: state_at_0)
next
  case (Suc i)
  then have "for_loop (loop_body always_ok data (int (length data div 3))) [0..int i - 1] init_state
     = Inr (state_at data i)" by simp
  then show ?case
    unfolding upto_snoc for_loop_append using step_mid [OF Suc.prems] by simp
qed

lemma pack_eq: "pack always_ok data = Inr (final_state data)"
proof (cases "length data div 3")
  case 0
  then show ?thesis
    by (simp add: pack_def Let_def zdiv_int final_state_def packed_words_def init_state_def)
next
  case (Suc m)
  then have m: "m < length data div 3" and l: "Suc m = length data div 3" by simp_all
  have d: "int (length data) div 3 = int (length data div 3)" by (simp add: zdiv_int)
  have "pack always_ok data =
      for_loop (loop_body always_ok data (int (length data div 3))) [0..int (Suc m) - 1] init_state"
    unfolding pack_def Let_def d by (simp only: l)
  then show ?thesis
    unfolding upto_snoc for_loop_append loop_prefix [OF m] using step_last [OF l] by simp
qed

lemma always_ok_eq: "(\<lambda>_ _. True) = always_ok"
  by (simp add: always_ok_def fun_eq_iff)

lemma tohex_eq: "tohex data = Inr (join_sep '', '' (map hex_word (packed_words data)))"
  by (simp add: tohex_def script_defs io_ok_def always_ok_eq pack_eq final_state_def)

section \<open>Shape and meaning of the output\<close>

lemma hex_digit_in: "d < 16 \<Longrightarrow> hex_digit d \<in> hex_digits"
  unfolding hex_digit_def hex_digits_def by (rule nth_mem) simp

lemma set_hex_upper: "set (hex_upper n) \<subseteq> hex_digits"
proof (induction n rule: hex_upper.induct)
  case (1 n)
  show ?case
  proof (cases "n < 16")
    case True
    then show ?thesis by (simp add: hex_upper.simps [of n] hex_digit_in)
  next
    case False
    then show ?thesis using 1 by (simp add: hex_upper.simps [of n] hex_digit_in)
  qed
qed

lemma length_hex_upper: "n < 16 ^ k \<Longrightarrow> 0 < k \<Longrightarrow> length (hex_upper n) \<le> k"
proof (induction k arbitrary: n)
  case 0
  then show ?case by simp
next
  case (Suc k)
  show ?case
  proof (cases "n < 16")
    case True
    then show ?thesis by (simp add: hex_upper.simps [of n])
  next
    case False
    have "n div 16 < 16 ^ k" using Suc.prems(1) by (simp add: less_mult_imp_div_less mult.commute)
    moreover have "0 < k" using False Suc.prems(1) by (cases k) simp_all
    ultimately have "length (hex_upper (n div 16)) \<le> k" by (rule Suc.IH)
    then show ?thesis using False by (simp add: hex_upper.simps [of n])
  qed
qed

lemma format_016X_shape:
  assumes "0 \<le> v" "v < 2 ^ 64"
  shows "length (format_016X v) = 16" "set (format_016X v) \<subseteq> hex_digits"
proof -
  have "nat v < 2 ^ 64" using assms by (simp add: nat_less_iff)
  then have "nat v < 16 ^ 16" by simp
  then have len: "length (hex_upper (nat v)) \<le> 16" by (rule length_hex_upper) simp
  then show "length (format_016X v) = 16" using assms by (simp add: format_016X_def zfill_def)
  have "CHR ''0'' \<in> hex_digits" by (simp add: hex_digits_def)
  then show "set (format_016X v) \<subseteq> hex_digits"
    using assms set_hex_upper [of "nat v"] by (auto simp add: format_016X_def zfill_def)
qed

lemma packed_word_range: "0 \<le> packed_word data k" "packed_word data k < 2 ^ 64"
proof -
  let ?bs = "take 64 (drop (64 * k) (red_flags data))"
  show "0 \<le> packed_word data k" unfolding packed_word_def by (rule horner_sum_nonnegative)
  have "(horner_sum of_bool 2 ?bs :: int) < 2 ^ length ?bs" by (rule horner_sum_bound)
  also have "\<dots> \<le> (2 :: int) ^ 64" by (rule power_increasing) simp_all
  finally show "packed_word data k < 2 ^ 64" unfolding packed_word_def .
qed


lemma split_words_nocomma: "CHR '','' \<notin> set w \<Longrightarrow> split_words w = [w]"
  by (induction w rule: split_words.induct) auto

lemma split_words_sep:
  "CHR '','' \<notin> set w \<Longrightarrow> split_words (w @ CHR '','' # CHR '' '' # rest) = w # split_words rest"
proof (induction w)
  case Nil
  then show ?case by simp
next
  case (Cons c w)
  then have ih: "split_words (w @ CHR '','' # CHR '' '' # rest) = w # split_words rest"
    and c: "c \<noteq> CHR '',''" by auto
  obtain d cs where dc: "w @ CHR '','' # CHR '' '' # rest = d # cs"
    by (cases w) auto
  show ?case using ih c unfolding append_Cons dc by simp
qed

lemma split_words_join:
  "ws \<noteq> [] \<Longrightarrow> \<forall>w\<in>set ws. CHR '','' \<notin> set w \<Longrightarrow> split_words (join_sep '', '' ws) = ws"
proof (induction "'', ''" ws rule: join_sep.induct)
  case 1
  then show ?case by simp
next
  case (2 w)
  then show ?case by (simp add: split_words_nocomma)
next
  case (3 w v ws)
  then have "split_words (join_sep '', '' (v # ws)) = v # ws" by simp
  then show ?case using 3 by (simp add: split_words_sep)
qed

lemma join_sep_Nil_iff: "\<forall>w\<in>set ws. w \<noteq> [] \<Longrightarrow> join_sep sep ws = [] \<longleftrightarrow> ws = []"
  by (induction sep ws rule: join_sep.induct) auto

lemma emitted_words_join:
  assumes "\<forall>w\<in>set ws. CHR '','' \<notin> set w \<and> w \<noteq> []"
  shows "emitted_words (join_sep '', '' ws) = ws"
proof (cases "ws = []")
  case True
  then show ?thesis by (simp add: emitted_words_def)
next
  case False
  then have "join_sep '', '' ws \<noteq> []" using assms by (simp add: join_sep_Nil_iff)
  then show ?thesis using False assms by (simp add: emitted_words_def split_words_join)
qed

lemma hex_word_shape:
  assumes "0 \<le> v" "v < 2 ^ 64"
  shows "CHR '','' \<notin> set (hex_word v)" "hex_word v \<noteq> []" "length (hex_word v) = 18"
    "take 2 (hex_word v) = ''0x''" "set (drop 2 (hex_word v)) \<subseteq> hex_digits"
proof -
  have "CHR '','' \<notin> hex_digits" by (simp add: hex_digits_def)
  then show "CHR '','' \<notin> set (hex_word v)"
    using format_016X_shape(2) [OF assms] by (auto simp add: hex_word_def)
  show "hex_word v \<noteq> []" by (simp add: hex_word_def)
  show "length (hex_word v) = 18" using format_016X_shape(1) [OF assms] by (simp add: hex_word_def)
  show "take 2 (hex_word v) = ''0x''" by (simp add: hex_word_def)
  show "set (drop 2 (hex_word v)) \<subseteq> hex_digits"
    using format_016X_shape(2) [OF assms] by (simp add: hex_word_def)
qed

lemma emitted_words_tohex:
  "tohex data = Inr out \<Longrightarrow> emitted_words out = map hex_word (packed_words data)"
proof -
  assume "tohex data = Inr out"
  then have out: "out = join_sep '', '' (map hex_word (packed_words data))"
    by (simp add: tohex_eq)
  have "\<forall>w\<in>set (map hex_word (packed_words data)). CHR '','' \<notin> set w \<and> w \<noteq> []"
    using hex_word_shape(1,2) packed_word_range by (auto simp add: packed_words_def)
  then show ?thesis unfolding out by (rule emitted_words_join)
qed


lemma digit_value_hex_digit: "d < 16 \<Longrightarrow> digit_value (hex_digit d) = d"
proof -
  assume "d < 16"
  then have "d = 0 \<or> d = 1 \<or> d = 2 \<or> d = 3 \<or> d = 4 \<or> d = 5 \<or> d = 6 \<or> d = 7 \<or> d = 8
      \<or> d = 9 \<or> d = 10 \<or> d = 11 \<or> d = 12 \<or> d = 13 \<or> d = 14 \<or> d = 15" by presburger
  then show ?thesis
    by (elim disjE) (simp_all add: digit_value_def hex_digit_def)
qed

lemma hex_parse_append: "hex_parse a (xs @ ys) = hex_parse (hex_parse a xs) ys"
  by (simp add: hex_parse_def)

lemma hex_parse_zeros: "hex_parse 0 (replicate k (CHR ''0'')) = 0"
  by (induction k) (simp_all add: hex_parse_def digit_value_def)

lemma hex_parse_hex_upper: "hex_parse 0 (hex_upper n) = int n"
proof (induction n rule: hex_upper.induct)
  case (1 n)
  show ?case
  proof (cases "n < 16")
    case True
    then show ?thesis by (simp add: hex_upper.simps [of n] hex_parse_def digit_value_hex_digit)
  next
    case False
    then have "hex_parse 0 (hex_upper (n div 16)) = int (n div 16)" using 1 by simp
    then have "hex_parse 0 (hex_upper n) = 16 * int (n div 16) + int (n mod 16)"
      using False
      by (simp add: hex_upper.simps [of n] hex_parse_append digit_value_hex_digit)
         (simp add: hex_parse_def digit_value_hex_digit)
    also have "\<dots> = int n" by (simp add: zdiv_int zmod_int)
    finally show ?thesis .
  qed
qed

lemma hex_value_hex_word: "0 \<le> v \<Longrightarrow> hex_value (hex_word v) = v"
proof -
  assume v: "0 \<le> v"
  have "hex_value (hex_word v) = hex_parse 0 (format_016X v)"
    by (simp add: hex_value_def hex_word_def hex_parse_def)
  also have "\<dots> = hex_parse 0 (hex_upper (nat v))"
    using v by (simp add: format_016X_def zfill_def hex_parse_append hex_parse_zeros)
  also have "\<dots> = v" using v by (simp add: hex_parse_hex_upper)
  finally show ?thesis .
qed


lemma bit_packed_word:
  "bit (packed_word data k) j \<longleftrightarrow>
     j < 64 \<and> 64 * k + j < length data div 3 \<and> data ! (3 * (64 * k + j)) = 255"
proof -
  define n where "n = length data div 3"
  let ?bs = "take 64 (drop (64 * k) (red_flags data))"
  have len: "length ?bs = min 64 (n - 64 * k)" by (simp add: n_def)
  have b: "bit (packed_word data k) j \<longleftrightarrow> j < length ?bs \<and> ?bs ! j"
    by (simp add: packed_word_def bit_horner_sum_bit_iff)
  show ?thesis
  proof (cases "j < 64 \<and> 64 * k + j < n")
    case True
    then have j: "j < 64" and kj: "64 * k + j < n" by simp_all
    have jl: "j < length ?bs" unfolding len using j kj by linarith
    have "?bs ! j = red_flags data ! (64 * k + j)" using j kj by (simp add: n_def)
    also have "\<dots> = (data ! (3 * (64 * k + j)) = 255)"
      using kj unfolding n_def by (rule nth_red_flags)
    finally show ?thesis using j kj jl unfolding b n_def by simp
  next
    case False
    then have "\<not> j < length ?bs" unfolding len by linarith
    then show ?thesis using False unfolding b n_def by blast
  qed
qed

lemma length_packed_words: "length (packed_words data) = (length data div 3 + 63) div 64"
  by (simp add: packed_words_def)

lemma word_index:
  fixes i n :: nat
  assumes "i < n"
  shows "i div 64 < (n + 63) div 64"
proof -
  define q where "q = i div 64"
  define r where "r = i mod 64"
  have i: "i = 64 * q + r" by (simp add: q_def r_def)
  have "64 * Suc q \<le> n + 63" using assms i by simp
  then have "(64 * Suc q) div 64 \<le> (n + 63) div 64" by (rule div_le_mono)
  then show ?thesis unfolding q_def [symmetric] by simp
qed

lemma nth_packed_words:
  "k < (length data div 3 + 63) div 64 \<Longrightarrow> packed_words data ! k = packed_word data k"
  by (simp add: packed_words_def)

lemma ceiling_div64: "\<lceil>real n / 64\<rceil> = int ((n + 63) div 64)"
proof -
  define q where "q = n div 64"
  define r where "r = n mod 64"
  have n: "n = 64 * q + r" and r: "r < 64" by (simp_all add: q_def r_def)
  show ?thesis
  proof (cases "r = 0")
    case True
    then have "real n / 64 = real q" using n by simp
    moreover have "(n + 63) div 64 = q" using n True by simp
    ultimately show ?thesis by simp
  next
    case False
    have "n + 63 = 64 * Suc q + (r - 1)" using n False by simp
    then have d: "(n + 63) div 64 = Suc q" using r by simp
    have "real n / 64 = real q + real r / 64" using n by simp
    moreover have "0 < real r / 64" "real r / 64 \<le> 1" using False r by simp_all
    ultimately have "\<lceil>real n / 64\<rceil> = int q + 1"
      by (intro ceiling_unique) simp_all
    then show ?thesis using d by simp
  qed
qed

lemma packed_words_cong:
  assumes "red_flags a = red_flags b"
  shows "packed_words a = packed_words b"
proof -
  have "length (red_flags a) = length (red_flags b)" using assms by simp
  then have "length a div 3 = length b div 3" by simp
  moreover have "packed_word a = packed_word b" using assms by (simp add: packed_word_def fun_eq_iff)
  ultimately show ?thesis by (simp add: packed_words_def)
qed

lemma red_flags_eqI:
  assumes "length a div 3 = length b div 3"
    and "\<And>i. i < length a div 3 \<Longrightarrow> (a ! (3 * i) = 255) = (b ! (3 * i) = 255)"
  shows "red_flags a = red_flags b"
proof (rule nth_equalityI)
  show "length (red_flags a) = length (red_flags b)" using assms(1) by simp
next
  fix i assume "i < length (red_flags a)"
  then have i: "i < length a div 3" by simp
  then have i': "i < length b div 3" using assms(1) by simp
  show "red_flags a ! i = red_flags b ! i"
    unfolding nth_red_flags [OF i] nth_red_flags [OF i'] using i by (rule assms(2))
qed

lemma tohex_cong: "red_flags a = red_flags b \<Longrightarrow> tohex a = tohex b"
  using packed_words_cong [of a b] by (simp add: tohex_eq)

lemma packed_words_range:
  "v \<in> set (packed_words data) \<Longrightarrow> 0 \<le> v \<and> v < 2 ^ 64"
  using packed_word_range by (auto simp add: packed_words_def)

lemma tohex_one: "tohex [255, 0, 0] = Inr ''0x0000000000000001''"
  by code_simp

lemma words_one: "emitted_words ''0x0000000000000001'' = [''0x0000000000000001'']"
  by code_simp

lemma tohex_65:
  "tohex (255 # replicate 194 0) = Inr ''0x0000000000000001, 0x0000000000000000''"
  by code_simp

lemma last_packed_words:
  assumes "length data div 3 = 64 * q + r" "0 < r" "r < 64"
  shows "length (packed_words data) = Suc q" "last (packed_words data) = packed_word data q"
proof -
  have "length data div 3 + 63 = 64 * Suc q + (r - 1)" using assms by simp
  then have cnt: "(length data div 3 + 63) div 64 = Suc q" using assms(3) by simp
  show "length (packed_words data) = Suc q" by (simp add: packed_words_def cnt)
  show "last (packed_words data) = packed_word data q"
    unfolding packed_words_def cnt by (simp add: last_map)
qed

lemma join_sep_hd: "ws \<noteq> [] \<Longrightarrow> hd ws \<noteq> [] \<Longrightarrow> hd (join_sep sep ws) = hd (hd ws)"
  by (induction sep ws rule: join_sep.induct) auto

lemma join_sep_last:
  "ws \<noteq> [] \<Longrightarrow> last ws \<noteq> [] \<Longrightarrow>
   join_sep sep ws \<noteq> [] \<and> last (join_sep sep ws) = last (last ws)"
  by (induction sep ws rule: join_sep.induct) auto

lemma prefix_sep_hd: "prefix '', '' out \<Longrightarrow> hd out = CHR '',''"
  by (auto simp add: prefix_def)

lemma suffix_sep_last: "suffix '', '' out \<Longrightarrow> last out = CHR '' ''"
  by (auto simp add: suffix_def)

lemma hex_word_ends:
  assumes "0 \<le> v" "v < 2 ^ 64"
  shows "hd (hex_word v) = CHR ''0''" "last (hex_word v) \<in> hex_digits"
proof -
  show "hd (hex_word v) = CHR ''0''" by (simp add: hex_word_def)
  have "format_016X v \<noteq> []" using format_016X_shape(1) [OF assms] by auto
  then have "last (hex_word v) \<in> set (format_016X v)" by (simp add: hex_word_def)
  then show "last (hex_word v) \<in> hex_digits" using format_016X_shape(2) [OF assms] by blast
qed

lemma loop_body_always_ok:
  "loop_body ok data n i s = Inr s' \<Longrightarrow> loop_body always_ok data n i s = Inr s'"
  by (auto simp add: loop_body_def file_write_def always_ok_def Let_def
      split: sum.splits if_splits)

lemma for_loop_always_ok:
  "for_loop (loop_body ok data n) js s = Inr s' \<Longrightarrow>
   for_loop (loop_body always_ok data n) js s = Inr s'"
proof (induction js arbitrary: s)
  case Nil
  then show ?case by simp
next
  case (Cons j js)
  then obtain s1 where s1: "loop_body ok data n j s = Inr s1"
    and r: "for_loop (loop_body ok data n) js s1 = Inr s'"
    by (auto split: sum.splits)
  from s1 have "loop_body always_ok data n j s = Inr s1" by (rule loop_body_always_ok)
  moreover from r have "for_loop (loop_body always_ok data n) js s1 = Inr s'" by (rule Cons.IH)
  ultimately show ?case by simp
qed

lemma pack_Inr: "pack ok data = Inr s \<Longrightarrow> s = final_state data"
proof -
  assume "pack ok data = Inr s"
  then have "pack always_ok data = Inr s"
    unfolding pack_def Let_def by (rule for_loop_always_ok)
  then show ?thesis by (simp add: pack_eq)
qed

lemma main_Inr:
  "result (main e) = Inr out \<Longrightarrow> out = hexList (final_state (image_data e))"
  by (auto simp add: script_defs split: if_splits sum.splits dest: pack_Inr)

lemma horner_take_range:
  "0 \<le> (horner_sum of_bool 2 (take m xs) :: int)"
  "(horner_sum of_bool 2 (take m xs) :: int) < 2 ^ m"
proof -
  show "0 \<le> (horner_sum of_bool 2 (take m xs) :: int)" by (rule horner_sum_nonnegative)
  have "(horner_sum of_bool 2 (take m xs) :: int) < 2 ^ length (take m xs)"
    by (rule horner_sum_bound)
  also have "\<dots> \<le> (2 :: int) ^ m" by (rule power_increasing) simp_all
  finally show "(horner_sum of_bool 2 (take m xs) :: int) < 2 ^ m" .
qed

lemma state_at_inv:
  "numBits (state_at data i) = int (i mod 64)"
  "0 \<le> bits (state_at data i)"
  "bits (state_at data i) < 2 ^ (i mod 64)"
  by (simp_all add: state_at_def horner_take_range)

lemma pow_le_64: "m \<le> 64 \<Longrightarrow> (x :: int) < 2 ^ m \<Longrightarrow> x < 2 ^ 64"
proof -
  assume m: "m \<le> 64" and x: "x < 2 ^ m"
  have "(2 :: int) ^ m \<le> 2 ^ 64" using m by (intro power_increasing) simp_all
  with x show ?thesis by linarith
qed

subsection \<open>The loop under an arbitrary write oracle\<close>

text \<open>The loop raises exactly when one of its calls of \<^verbatim>\<open>write\<close> fails, and then with
  \<open>OSError\<close>; the index and the shift never raise.\<close>

lemma loop_body_ok_rel:
  "loop_body ok data n i s =
     (case loop_body always_ok data n i s of
        Inl e \<Rightarrow> Inl e
      | Inr s' \<Rightarrow>
          if (numBits s + 1 = 64 \<or> i = n - 1) \<and>
             \<not> ok (hexList s) (drop (length (hexList s)) (hexList s'))
          then Inl OSError else Inr s')"
  by (auto simp add: loop_body_def file_write_def always_ok_def Let_def split: sum.splits)

lemma flush_word_count:
  assumes "i < n" "i mod 64 = 63 \<or> Suc i = n"
  shows "(if Suc i = n then (n + 63) div 64 else Suc i div 64) = Suc (i div 64)"
proof -
  define q where "q = i div 64"
  define r where "r = i mod 64"
  have i: "i = 64 * q + r" and r: "r < 64" by (simp_all add: q_def r_def)
  show ?thesis
  proof (cases "Suc i = n")
    case True
    then have "n + 63 = 64 * Suc q + r" using i by simp
    then have "(n + 63) div 64 = Suc q" using r by simp
    then show ?thesis using True by (simp add: q_def)
  next
    case False
    then have "r = 63" using assms(2) by (simp add: r_def)
    then have "Suc i = 64 * Suc q + 0" using i by simp
    then have "Suc i div 64 = Suc q" by (metis add.right_neutral nonzero_mult_div_cancel_left zero_neq_numeral)
    then show ?thesis using False by (simp add: q_def)
  qed
qed

lemma hexList_state_at: "hexList (state_at data i) = written_before data (i div 64)"
  by (simp add: state_at_def written_before_def)

lemma written_before_Suc:
  "written_before data (Suc k) = written_before data k @ write_piece data k"
  unfolding written_before_def write_piece_def join_upt_Suc [symmetric] by simp

lemma hexList_final: "hexList (final_state data) = written_before data ((length data div 3 + 63) div 64)"
  by (simp add: final_state_def written_before_def packed_words_def)

lemma hexList_next:
  assumes "i < length data div 3" "i mod 64 = 63 \<or> Suc i = length data div 3"
  shows "hexList (if Suc i = length data div 3 then final_state data else state_at data (Suc i))
       = written_before data (i div 64) @ write_piece data (i div 64)"
proof -
  have "hexList (if Suc i = length data div 3 then final_state data else state_at data (Suc i))
      = written_before data
          (if Suc i = length data div 3 then (length data div 3 + 63) div 64 else Suc i div 64)"
    by (simp add: hexList_final hexList_state_at)
  also have "\<dots> = written_before data (Suc (i div 64))"
    by (simp only: flush_word_count [OF assms])
  finally show ?thesis by (simp only: written_before_Suc)
qed

lemma step_always:
  assumes "i < length data div 3"
  shows "loop_body always_ok data (int (length data div 3)) (int i) (state_at data i)
       = Inr (if Suc i = length data div 3 then final_state data else state_at data (Suc i))"
proof (cases "Suc i = length data div 3")
  case True
  then show ?thesis using step_last [OF True] by simp
next
  case False
  then have "Suc i < length data div 3" using assms by simp
  then show ?thesis using False by (simp add: step_mid)
qed

lemma step_ok:
  assumes "i < length data div 3"
  shows "loop_body ok data (int (length data div 3)) (int i) (state_at data i) =
     (if (i mod 64 = 63 \<or> Suc i = length data div 3) \<and>
         \<not> ok (written_before data (i div 64)) (write_piece data (i div 64))
      then Inl OSError
      else Inr (if Suc i = length data div 3 then final_state data else state_at data (Suc i)))"
proof -
  have fl: "(numBits (state_at data i) + 1 = 64 \<or> int i = int (length data div 3) - 1)
      \<longleftrightarrow> (i mod 64 = 63 \<or> Suc i = length data div 3)"
    using assms by (auto simp add: state_at_inv(1))
  show ?thesis
  proof (cases "i mod 64 = 63 \<or> Suc i = length data div 3")
    case True
    have "drop (length (hexList (state_at data i)))
        (hexList (if Suc i = length data div 3 then final_state data else state_at data (Suc i)))
      = write_piece data (i div 64)"
      unfolding hexList_next [OF assms True] hexList_state_at by simp
    then show ?thesis
      unfolding loop_body_ok_rel [of ok] step_always [OF assms] fl
      by (simp add: hexList_state_at)
  next
    case False
    then show ?thesis
      unfolding loop_body_ok_rel [of ok] step_always [OF assms] fl by simp
  qed
qed


lemma loop_prefix_ok:
  "i < length data div 3 \<Longrightarrow>
   (\<forall>k < i div 64. ok (written_before data k) (write_piece data k)) \<Longrightarrow>
   for_loop (loop_body ok data (int (length data div 3))) [0..int i - 1] init_state
     = Inr (state_at data i)"
proof (induction i)
  case 0
  then show ?case by (simp add: state_at_0)
next
  case (Suc i)
  have lt: "i < length data div 3" using Suc.prems(1) by simp
  have le: "i div 64 \<le> Suc i div 64" by (rule div_le_mono) simp
  then have "\<forall>k < i div 64. ok (written_before data k) (write_piece data k)"
    using Suc.prems(2) by auto
  with lt have pre: "for_loop (loop_body ok data (int (length data div 3))) [0..int i - 1]
      init_state = Inr (state_at data i)" by (rule Suc.IH)
  have nl: "Suc i \<noteq> length data div 3" using Suc.prems(1) by simp
  have "(i mod 64 = 63 \<or> Suc i = length data div 3)
      \<longrightarrow> ok (written_before data (i div 64)) (write_piece data (i div 64))"
  proof
    assume f: "i mod 64 = 63 \<or> Suc i = length data div 3"
    have "Suc i div 64 = Suc (i div 64)"
      using flush_word_count [OF Suc.prems(1) [THEN Suc_lessD] f] nl by simp
    then have "i div 64 < Suc i div 64" by simp
    then show "ok (written_before data (i div 64)) (write_piece data (i div 64))"
      using Suc.prems(2) by blast
  qed
  then have "loop_body ok data (int (length data div 3)) (int i) (state_at data i)
      = Inr (state_at data (Suc i))"
    unfolding step_ok [OF lt] using nl by auto
  then show ?case unfolding upto_snoc for_loop_append pre by simp
qed

lemma pack_unfold:
  "pack ok data =
     for_loop (loop_body ok data (int (length data div 3))) [0..int (length data div 3) - 1]
       init_state"
  by (simp add: pack_def Let_def zdiv_int)

lemma for_loop_fail:
  assumes "for_loop f xs s = Inr s1" "f j s1 = Inl err"
  shows "for_loop f (xs @ j # ys) s = Inl err"
  using assms by (simp add: for_loop_append)

lemma upto_split_at:
  assumes "i < n"
  shows "[0..int n - 1] = [0..int i - 1] @ int i # [int i + 1..int n - 1]"
  using upto_split3 [of 0 "int i" "int n - 1"] assms by simp

lemma pack_write_fails:
  assumes k: "k < length (packed_words data)"
    and bad: "\<not> ok (written_before data k) (write_piece data k)"
    and good: "\<forall>j < k. ok (written_before data j) (write_piece data j)"
  shows "pack ok data = Inl OSError"
proof -
  define n where "n = length data div 3"
  define i where "i = min (64 * k + 63) (n - 1)"
  have kn: "k < (n + 63) div 64" using k by (simp add: length_packed_words n_def)
  have "64 * k < n"
  proof (rule ccontr)
    assume "\<not> 64 * k < n"
    then have "n + 63 \<le> 64 * k + 63" by simp
    then have "(n + 63) div 64 \<le> (64 * k + 63) div 64" by (rule div_le_mono)
    then show False using kn by simp
  qed
  then have lo: "64 * k \<le> i" and hi: "i \<le> 64 * k + 63" and lt: "i < n"
    by (simp_all add: i_def)
  have "i div 64 \<le> (64 * k + 63) div 64" using hi by (rule div_le_mono)
  moreover have "(64 * k) div 64 \<le> i div 64" using lo by (rule div_le_mono)
  ultimately have q: "i div 64 = k" by simp
  have f: "i mod 64 = 63 \<or> Suc i = n"
  proof (cases "64 * k + 63 \<le> n - 1")
    case True
    then have "i = 64 * k + 63" by (simp add: i_def)
    then show ?thesis by simp
  next
    case False
    then have "i = n - 1" by (simp add: i_def)
    then show ?thesis using lt by simp
  qed
  have pre: "for_loop (loop_body ok data (int n)) [0..int i - 1] init_state = Inr (state_at data i)"
    unfolding n_def using lt good by (intro loop_prefix_ok) (simp_all add: n_def q)
  have st: "loop_body ok data (int n) (int i) (state_at data i) = Inl OSError"
    unfolding n_def step_ok [OF lt [unfolded n_def]] using f bad by (simp add: q n_def)
  show ?thesis
    unfolding pack_unfold n_def [symmetric] upto_split_at [OF lt]
    using pre st by (rule for_loop_fail)
qed

lemma pack_writes_ok:
  assumes "\<forall>k < length (packed_words data). ok (written_before data k) (write_piece data k)"
  shows "pack ok data = Inr (final_state data)"
proof (cases "length data div 3")
  case 0
  then show ?thesis
    by (simp add: pack_unfold final_state_def packed_words_def init_state_def)
next
  case (Suc m)
  then have m: "m < length data div 3" and l: "Suc m = length data div 3" by simp_all
  have w: "m div 64 < length (packed_words data)"
    unfolding length_packed_words using m by (rule word_index)
  then have "\<forall>k < m div 64. ok (written_before data k) (write_piece data k)"
    using assms by auto
  with m have pre: "for_loop (loop_body ok data (int (length data div 3))) [0..int m - 1]
      init_state = Inr (state_at data m)" by (rule loop_prefix_ok)
  have "ok (written_before data (m div 64)) (write_piece data (m div 64))"
    using assms w by blast
  then have st: "loop_body ok data (int (length data div 3)) (int m) (state_at data m)
      = Inr (final_state data)"
    unfolding step_ok [OF m] using l by simp
  have "[0..int (length data div 3) - 1] = [0..int m - 1] @ [int m]"
    unfolding l [symmetric] by (rule upto_snoc)
  then have "pack ok data =
      for_loop (loop_body ok data (int (length data div 3))) ([0..int m - 1] @ [int m]) init_state"
    by (simp only: pack_unfold)
  then show ?thesis using pre st by (simp add: for_loop_append)
qed

lemma writes_ok_iff:
  "writes_ok ok data \<longleftrightarrow>
     (\<forall>k < length (packed_words data). ok (written_before data k) (write_piece data k))"
  by (auto simp add: writes_ok_def list_all_iff)

lemma pack_cases:
  "pack ok data = (if writes_ok ok data then Inr (final_state data) else Inl OSError)"
proof (cases "writes_ok ok data")
  case True
  then show ?thesis using pack_writes_ok [of data ok] by (simp add: writes_ok_iff)
next
  case False
  then have "\<exists>k. k < length (packed_words data) \<and>
      \<not> ok (written_before data k) (write_piece data k)"
    by (auto simp add: writes_ok_iff)
  then obtain k where k: "k < length (packed_words data) \<and>
      \<not> ok (written_before data k) (write_piece data k)"
    and least: "\<forall>j < k. \<not> (j < length (packed_words data) \<and>
      \<not> ok (written_before data j) (write_piece data j))"
    unfolding exists_least_iff [of "\<lambda>k. k < length (packed_words data) \<and>
      \<not> ok (written_before data k) (write_piece data k)"] by blast
  have "\<forall>j < k. ok (written_before data j) (write_piece data j)"
    using least k by auto
  then have "pack ok data = Inl OSError" using k by (intro pack_write_fails [of k]) simp_all
  then show ?thesis using False by simp
qed

section \<open>The claims\<close>

text \<open>
  C1.  For every input, with \<open>numPixels = length data div 3\<close> and every pixel
  \<open>i < numPixels\<close>: the run succeeds, the output holds a word of index \<open>i div 64\<close>, and
  bit \<open>i mod 64\<close> (counted from the least significant bit) of the number that word
  denotes is set exactly when the byte at offset \<open>3 * i\<close> is 255.
\<close>

theorem C1_bit_of_word:
  assumes "i < length data div 3"
  shows "\<exists>out. tohex data = Inr out \<and> i div 64 < length (emitted_words out) \<and>
     (bit (hex_value (emitted_words out ! (i div 64))) (i mod 64) \<longleftrightarrow> data ! (3 * i) = 255)"
proof -
  define out where "out = join_sep '', '' (map hex_word (packed_words data))"
  have t: "tohex data = Inr out" by (simp add: tohex_eq out_def)
  have ew: "emitted_words out = map hex_word (packed_words data)"
    using t by (rule emitted_words_tohex)
  have k: "i div 64 < (length data div 3 + 63) div 64" using assms by (rule word_index)
  have "emitted_words out ! (i div 64) = hex_word (packed_word data (i div 64))"
    unfolding ew using k by (simp add: length_packed_words nth_packed_words)
  then have "hex_value (emitted_words out ! (i div 64)) = packed_word data (i div 64)"
    by (simp add: hex_value_hex_word packed_word_range)
  moreover have "bit (packed_word data (i div 64)) (i mod 64) \<longleftrightarrow> data ! (3 * i) = 255"
    using assms by (simp add: bit_packed_word)
  ultimately show ?thesis using t k by (simp add: ew length_packed_words)
qed

theorem C1_bit_of_word_witness:
  "(0::nat) < length [255, 0, 0 :: byte] div 3 \<and>
   (\<exists>out. tohex [255, 0, 0] = Inr out \<and> 0 div 64 < length (emitted_words out) \<and>
     (bit (hex_value (emitted_words out ! (0 div 64))) (0 mod 64)
        \<longleftrightarrow> [255, 0, 0 :: byte] ! (3 * 0) = 255))"
  using C1_bit_of_word [of 0 "[255, 0, 0]"] by simp

text \<open>
  C2.  For every input the run succeeds and the number of words in the output is the
  ceiling of \<open>numPixels / 64\<close>, where \<open>numPixels = length data div 3\<close>; the empty
  input gives the empty text, which holds no word.
\<close>

theorem C2_word_count:
  "(\<exists>out. tohex data = Inr out \<and>
      int (length (emitted_words out)) = \<lceil>real (length data div 3) / 64\<rceil>) \<and>
   tohex [] = Inr '''' \<and> length (emitted_words '''') = 0"
proof -
  define out where "out = join_sep '', '' (map hex_word (packed_words data))"
  have t: "tohex data = Inr out" by (simp add: tohex_eq out_def)
  then have "emitted_words out = map hex_word (packed_words data)" by (rule emitted_words_tohex)
  then have "int (length (emitted_words out)) = \<lceil>real (length data div 3) / 64\<rceil>"
    by (simp add: length_packed_words ceiling_div64)
  moreover have "tohex [] = Inr ''''" by (simp add: tohex_eq packed_words_def)
  moreover have "length (emitted_words '''') = 0" by (simp add: emitted_words_def)
  ultimately show ?thesis using t by blast
qed

text \<open>
  C3.  Up to two bytes after the last complete triplet change nothing: the output is
  that of the complete triplets alone, and the run does not fail.
\<close>

theorem C3_trailing_bytes:
  assumes "3 dvd length data" "length extra < 3"
  shows "tohex (data @ extra) = tohex data \<and> (\<exists>out. tohex (data @ extra) = Inr out)"
proof -
  obtain m where m: "length data = 3 * m" using assms(1) by (auto elim: dvdE)
  have len: "length (data @ extra) div 3 = length data div 3"
    using assms(2) m by simp
  have "red_flags (data @ extra) = red_flags data"
  proof (rule red_flags_eqI [OF len])
    fix i assume "i < length (data @ extra) div 3"
    then have "3 * i < length data" using len m by simp
    then show "((data @ extra) ! (3 * i) = 255) = (data ! (3 * i) = 255)"
      by (simp add: nth_append)
  qed
  then have "tohex (data @ extra) = tohex data" by (rule tohex_cong)
  then show ?thesis by (simp add: tohex_eq)
qed

theorem C3_trailing_bytes_witness:
  "3 dvd length [255, 0, 0 :: byte] \<and> length [7, 255 :: byte] < 3 \<and>
   tohex ([255, 0, 0] @ [7, 255]) = tohex [255, 0, 0] \<and>
   (\<exists>out. tohex ([255, 0, 0] @ [7, 255]) = Inr out)"
proof -
  have h1: "3 dvd length [255, 0, 0 :: byte]" by (simp add: numeral_3_eq_3)
  have h2: "length [7, 255 :: byte] < 3" by simp
  show ?thesis using h1 h2 C3_trailing_bytes [OF h1 h2] by blast
qed

text \<open>
  C4.  For every input the run succeeds and every word of the output is \<^verbatim>\<open>0x\<close> followed
  by exactly sixteen characters, each one of \<^verbatim>\<open>0123456789ABCDEF\<close>.
\<close>

theorem C4_word_format:
  "\<exists>out. tohex data = Inr out \<and>
     (\<forall>w\<in>set (emitted_words out).
        take 2 w = ''0x'' \<and> length (drop 2 w) = 16 \<and> set (drop 2 w) \<subseteq> hex_digits)"
proof -
  define out where "out = join_sep '', '' (map hex_word (packed_words data))"
  have t: "tohex data = Inr out" by (simp add: tohex_eq out_def)
  then have ew: "emitted_words out = map hex_word (packed_words data)" by (rule emitted_words_tohex)
  have "\<forall>w\<in>set (emitted_words out).
        take 2 w = ''0x'' \<and> length (drop 2 w) = 16 \<and> set (drop 2 w) \<subseteq> hex_digits"
  proof
    fix w assume "w \<in> set (emitted_words out)"
    then obtain v where v: "v \<in> set (packed_words data)" and w: "w = hex_word v"
      unfolding ew by auto
    have r: "0 \<le> v" "v < 2 ^ 64" using packed_words_range [OF v] by simp_all
    show "take 2 w = ''0x'' \<and> length (drop 2 w) = 16 \<and> set (drop 2 w) \<subseteq> hex_digits"
      unfolding w using hex_word_shape(3,4,5) [OF r] by simp
  qed
  with t show ?thesis by (intro exI conjI)
qed

theorem C4_word_format_witness:
  "tohex [255, 0, 0] = Inr ''0x0000000000000001'' \<and>
   ''0x0000000000000001'' \<in> set (emitted_words ''0x0000000000000001'') \<and>
   take 2 ''0x0000000000000001'' = ''0x'' \<and>
   length (drop 2 ''0x0000000000000001'') = 16 \<and>
   set (drop 2 ''0x0000000000000001'') \<subseteq> hex_digits"
proof -
  obtain out where o: "tohex [255, 0, 0] = Inr out"
    and a: "\<forall>w\<in>set (emitted_words out).
        take 2 w = ''0x'' \<and> length (drop 2 w) = 16 \<and> set (drop 2 w) \<subseteq> hex_digits"
    using C4_word_format [of "[255, 0, 0]"] by blast
  have out: "out = ''0x0000000000000001''" using o unfolding tohex_one by simp
  have m: "''0x0000000000000001'' \<in> set (emitted_words ''0x0000000000000001'')"
    unfolding words_one by simp
  from a [unfolded out, rule_format, OF m] m tohex_one show ?thesis by (intro conjI) simp_all
qed

text \<open>
  C9.  The output depends only on which pixels have a first byte equal to 255: two inputs
  of the same length that agree on this for every pixel give the same result, and
  overwriting a byte at an offset that is not \<open>3 * i\<close> for a pixel \<open>i\<close> (a second or
  third channel, or a trailing byte) leaves the result unchanged.
\<close>

theorem C9_noninterference:
  "(length d1 = length d2 \<and>
      (\<forall>i < length d1 div 3. (d1 ! (3 * i) = 255) = (d2 ! (3 * i) = 255))
      \<longrightarrow> tohex d1 = tohex d2) \<and>
   ((\<forall>i < length data div 3. k \<noteq> 3 * i) \<longrightarrow> tohex (data[k := b]) = tohex data)"
proof (intro conjI impI)
  assume a: "length d1 = length d2 \<and>
      (\<forall>i < length d1 div 3. (d1 ! (3 * i) = 255) = (d2 ! (3 * i) = 255))"
  then have l: "length d1 div 3 = length d2 div 3"
    and e: "\<And>i. i < length d1 div 3 \<Longrightarrow> (d1 ! (3 * i) = 255) = (d2 ! (3 * i) = 255)"
    by simp_all
  from l e have "red_flags d1 = red_flags d2" by (rule red_flags_eqI)
  then show "tohex d1 = tohex d2" by (rule tohex_cong)
next
  assume k: "\<forall>i < length data div 3. k \<noteq> 3 * i"
  have "red_flags (data[k := b]) = red_flags data"
  proof (rule red_flags_eqI)
    show "length (data[k := b]) div 3 = length data div 3" by simp
  next
    fix i assume "i < length (data[k := b]) div 3"
    then have "k \<noteq> 3 * i" using k by simp
    then show "(data[k := b] ! (3 * i) = 255) = (data ! (3 * i) = 255)" by simp
  qed
  then show "tohex (data[k := b]) = tohex data" by (rule tohex_cong)
qed

theorem C9_noninterference_witness:
  "length [255, 1, 2 :: byte] = length [255, 7, 9 :: byte] \<and>
   ([255, 1, 2 :: byte] ! (3 * 0) = 255) = ([255, 7, 9 :: byte] ! (3 * 0) = 255) \<and>
   tohex [255, 1, 2] = tohex [255, 7, 9] \<and>
   (1 :: nat) \<noteq> 3 * 0 \<and>
   tohex ([255, 1, 2][1 := 9]) = tohex [255, 1, 2]"
proof -
  have h1: "length [255, 1, 2 :: byte] = length [255, 7, 9 :: byte] \<and>
   (\<forall>i < length [255, 1, 2 :: byte] div 3.
      ([255, 1, 2 :: byte] ! (3 * i) = 255) = ([255, 7, 9 :: byte] ! (3 * i) = 255))"
    by simp
  have h2: "\<forall>i < length [255, 1, 2 :: byte] div 3. (1 :: nat) \<noteq> 3 * i"
    by simp
  have c: "(length [255, 1, 2 :: byte] = length [255, 7, 9 :: byte] \<and>
      (\<forall>i < length [255, 1, 2 :: byte] div 3.
         ([255, 1, 2 :: byte] ! (3 * i) = 255) = ([255, 7, 9 :: byte] ! (3 * i) = 255))
      \<longrightarrow> tohex [255, 1, 2] = tohex [255, 7, 9]) \<and>
   ((\<forall>i < length [255, 1, 2 :: byte] div 3. (1 :: nat) \<noteq> 3 * i)
      \<longrightarrow> tohex ([255, 1, 2][1 := 9]) = tohex [255, 1, 2])"
    by (rule C9_noninterference)
  from c h1 have r1: "tohex [255, 1, 2] = tohex [255, 7, 9]" by blast
  from c h2 have r2: "tohex ([255, 1, 2][1 := 9]) = tohex [255, 1, 2]" by blast
  have i: "([255, 1, 2 :: byte] ! (3 * 0) = 255) = ([255, 7, 9 :: byte] ! (3 * 0) = 255)"
    "(1 :: nat) \<noteq> 3 * 0" "length [255, 1, 2 :: byte] = length [255, 7, 9 :: byte]"
    by simp_all
  from i r1 r2 show ?thesis by (intro conjI)
qed

text \<open>
  C5.  When the number of pixels is not a multiple of 64, the run succeeds with one word
  more than the number of full groups of 64 pixels; that last word has the full width of
  18 characters, and its bits from position \<open>numPixels mod 64\<close> upwards are all zero.
  The input of 195 bytes whose first byte is 255 and whose other bytes are 0 gives the two
  words \<^verbatim>\<open>0x0000000000000001\<close> and \<^verbatim>\<open>0x0000000000000000\<close>.
\<close>

theorem C5_partial_word:
  "(length data div 3 mod 64 \<noteq> 0 \<longrightarrow>
      (\<exists>out. tohex data = Inr out \<and>
         length (emitted_words out) = length data div 3 div 64 + 1 \<and>
         length (last (emitted_words out)) = 18 \<and>
         (\<forall>j \<ge> length data div 3 mod 64. \<not> bit (hex_value (last (emitted_words out))) j))) \<and>
   tohex (255 # replicate 194 0) = Inr ''0x0000000000000001, 0x0000000000000000''"
proof (intro conjI impI)
  assume nz: "length data div 3 mod 64 \<noteq> 0"
  define q where "q = length data div 3 div 64"
  define r where "r = length data div 3 mod 64"
  have n: "length data div 3 = 64 * q + r" and r: "0 < r" "r < 64"
    using nz by (simp_all add: q_def r_def)
  define out where "out = join_sep '', '' (map hex_word (packed_words data))"
  have t: "tohex data = Inr out" by (simp add: tohex_eq out_def)
  then have ew: "emitted_words out = map hex_word (packed_words data)" by (rule emitted_words_tohex)
  have len: "length (emitted_words out) = q + 1"
    unfolding ew using last_packed_words(1) [OF n r] by simp
  have ne: "packed_words data \<noteq> []" using last_packed_words(1) [OF n r] by auto
  have lw: "last (emitted_words out) = hex_word (packed_word data q)"
    unfolding ew using ne last_packed_words(2) [OF n r] by (simp add: last_map)
  have l18: "length (last (emitted_words out)) = 18"
    unfolding lw by (rule hex_word_shape(3)) (rule packed_word_range)+
  have hv: "hex_value (last (emitted_words out)) = packed_word data q"
    unfolding lw by (rule hex_value_hex_word) (rule packed_word_range)
  have z: "\<forall>j \<ge> r. \<not> bit (hex_value (last (emitted_words out))) j"
    unfolding hv bit_packed_word n by simp
  show "\<exists>out. tohex data = Inr out \<and>
         length (emitted_words out) = length data div 3 div 64 + 1 \<and>
         length (last (emitted_words out)) = 18 \<and>
         (\<forall>j \<ge> length data div 3 mod 64. \<not> bit (hex_value (last (emitted_words out))) j)"
    using t len l18 z unfolding q_def r_def by (intro exI conjI)
next
  show "tohex (255 # replicate 194 0) = Inr ''0x0000000000000001, 0x0000000000000000''"
    by (rule tohex_65)
qed

theorem C5_partial_word_witness:
  "length [0, 0, 0 :: byte] div 3 mod 64 \<noteq> 0 \<and>
   length [0, 0, 0 :: byte] div 3 mod 64 \<le> 1 \<and>
   (\<exists>out. tohex [0, 0, 0] = Inr out \<and>
         length (emitted_words out) = length [0, 0, 0 :: byte] div 3 div 64 + 1 \<and>
         length (last (emitted_words out)) = 18 \<and>
         \<not> bit (hex_value (last (emitted_words out))) 1)"
proof -
  have h: "length [0, 0, 0 :: byte] div 3 mod 64 \<noteq> 0" by simp
  have g: "length [0, 0, 0 :: byte] div 3 mod 64 \<le> 1" by simp
  from C5_partial_word [of "[0, 0, 0]"] h g show ?thesis by blast
qed

text \<open>
  C6.  For an input with at least one pixel, the output holds at least one word, its
  words are the formatted packed words in order, the text is exactly these words joined
  by \<^verbatim>\<open>', '\<close>, and it neither starts nor ends with the separator.
\<close>

theorem C6_joined_words:
  assumes "0 < length data div 3"
  shows "\<exists>out. tohex data = Inr out \<and>
     emitted_words out = map hex_word (packed_words data) \<and>
     emitted_words out \<noteq> [] \<and>
     out = join_sep '', '' (emitted_words out) \<and>
     \<not> prefix '', '' out \<and> \<not> suffix '', '' out"
proof -
  define ws where "ws = map hex_word (packed_words data)"
  define out where "out = join_sep '', '' ws"
  have t: "tohex data = Inr out" by (simp add: tohex_eq out_def ws_def)
  then have ew: "emitted_words out = ws" unfolding ws_def by (rule emitted_words_tohex)
  have "0 div 64 < (length data div 3 + 63) div 64" using assms by (rule word_index)
  then have pne: "packed_words data \<noteq> []" by (auto simp add: packed_words_def)
  then have ne: "ws \<noteq> []" by (simp add: ws_def)
  have hr: "0 \<le> hd (packed_words data)" "hd (packed_words data) < 2 ^ 64"
    using packed_words_range [of "hd (packed_words data)" data] pne by simp_all
  have lr: "0 \<le> last (packed_words data)" "last (packed_words data) < 2 ^ 64"
    using packed_words_range [of "last (packed_words data)" data] pne by simp_all
  have hdw: "hd ws = hex_word (hd (packed_words data))"
    using pne by (simp add: ws_def hd_map)
  have lastw: "last ws = hex_word (last (packed_words data))"
    using pne by (simp add: ws_def last_map)
  have "hd ws \<noteq> []" unfolding hdw by (rule hex_word_shape(2) [OF hr])
  then have "hd out = hd (hd ws)" unfolding out_def using ne by (simp add: join_sep_hd)
  then have "hd out = CHR ''0''" unfolding hdw using hex_word_ends(1) [OF hr] by simp
  then have np: "\<not> prefix '', '' out" using prefix_sep_hd [of out] by auto
  have "last ws \<noteq> []" unfolding lastw by (rule hex_word_shape(2) [OF lr])
  then have "last out = last (last ws)" unfolding out_def using ne by (simp add: join_sep_last)
  then have "last out \<in> hex_digits" unfolding lastw using hex_word_ends(2) [OF lr] by simp
  moreover have "CHR '' '' \<notin> hex_digits" by (simp add: hex_digits_def)
  ultimately have ns: "\<not> suffix '', '' out" using suffix_sep_last [of out] by auto
  have j: "out = join_sep '', '' (emitted_words out)" unfolding ew by (rule out_def)
  have e: "emitted_words out = map hex_word (packed_words data)" unfolding ew by (rule ws_def)
  have n: "emitted_words out \<noteq> []" unfolding ew by (rule ne)
  from t e n j np ns show ?thesis by (intro exI conjI)
qed

theorem C6_joined_words_witness:
  "0 < length (255 # replicate 194 (0 :: byte)) div 3 \<and>
   (\<exists>out. tohex (255 # replicate 194 0) = Inr out \<and>
     emitted_words out = map hex_word (packed_words (255 # replicate 194 0)) \<and>
     emitted_words out \<noteq> [] \<and>
     out = join_sep '', '' (emitted_words out) \<and>
     \<not> prefix '', '' out \<and> \<not> suffix '', '' out)"
proof -
  have h: "0 < length (255 # replicate 194 (0 :: byte)) div 3" by simp
  from C6_joined_words [OF h] h show ?thesis by (intro conjI)
qed

text \<open>
  C7, as stated: both file handles are closed on every exit path, error paths included.
  This fails: when \<^verbatim>\<open>rawImage.read()\<close> raises, the script ends with that exception and
  the input handle still open.
\<close>

theorem C7_counterexample:
  "rawImage_open (main \<lparr>open_image_ok = True, image_data = [255, 0, 0], read_ok = False,
       close_image_ok = True, open_out_ok = True, write_ok = always_ok,
       close_out_ok = True\<rparr>) \<and>
   result (main \<lparr>open_image_ok = True, image_data = [255, 0, 0], read_ok = False,
       close_image_ok = True, open_out_ok = True, write_ok = always_ok,
       close_out_ok = True\<rparr>) = Inl OSError"
  by (simp add: script_defs)

text \<open>
  C7, amended.  The input handle is open at exit exactly when the file was opened and the
  read raised.  The output handle is open at exit exactly when every statement before the
  loop succeeded and one of the loop's calls of \<^verbatim>\<open>write\<close> raised.  The script ends
  without an exception exactly when every file operation, the two closes included,
  succeeds; and then both handles are closed.
\<close>

theorem C7_handles:
  "(rawImage_open (main e) \<longleftrightarrow> open_image_ok e \<and> \<not> read_ok e) \<and>
   (hexList_open (main e) \<longleftrightarrow>
      open_image_ok e \<and> read_ok e \<and> close_image_ok e \<and> open_out_ok e \<and>
      (\<exists>k < length (packed_words (image_data e)).
         \<not> write_ok e (written_before (image_data e) k) (write_piece (image_data e) k))) \<and>
   ((\<exists>out. result (main e) = Inr out) \<longleftrightarrow>
      open_image_ok e \<and> read_ok e \<and> close_image_ok e \<and> open_out_ok e \<and>
      (\<forall>k < length (packed_words (image_data e)).
         write_ok e (written_before (image_data e) k) (write_piece (image_data e) k)) \<and>
      close_out_ok e) \<and>
   ((\<exists>out. result (main e) = Inr out) \<longrightarrow>
      \<not> rawImage_open (main e) \<and> \<not> hexList_open (main e))"
proof -
  have p: "pack (write_ok e) (image_data e) =
      (if \<forall>k < length (packed_words (image_data e)).
            write_ok e (written_before (image_data e) k) (write_piece (image_data e) k)
       then Inr (final_state (image_data e)) else Inl OSError)"
    by (simp add: pack_cases writes_ok_iff)
  show ?thesis
    unfolding script_defs run_stmts.simps
    by (simp add: p) blast
qed

theorem C7_handles_witness:
  "(\<exists>out. result (main \<lparr>open_image_ok = True, image_data = [255, 0, 0], read_ok = True,
       close_image_ok = True, open_out_ok = True, write_ok = always_ok,
       close_out_ok = True\<rparr>) = Inr out) \<and>
   \<not> rawImage_open (main \<lparr>open_image_ok = True, image_data = [255, 0, 0], read_ok = True,
       close_image_ok = True, open_out_ok = True, write_ok = always_ok,
       close_out_ok = True\<rparr>) \<and>
   \<not> hexList_open (main \<lparr>open_image_ok = True, image_data = [255, 0, 0], read_ok = True,
       close_image_ok = True, open_out_ok = True, write_ok = always_ok,
       close_out_ok = True\<rparr>)"
proof -
  let ?e = "\<lparr>open_image_ok = True, image_data = [255, 0, 0], read_ok = True,
       close_image_ok = True, open_out_ok = True, write_ok = always_ok,
       close_out_ok = True\<rparr>"
  have "result (main ?e) = Inr ''0x0000000000000001''" by code_simp
  then have h: "\<exists>out. result (main ?e) = Inr out" by (rule exI)
  from C7_handles [of ?e] h show ?thesis by blast
qed

text \<open>
  C8.  Two runs on the same input bytes that both produce an output produce the same
  text, whatever else the environment did.
\<close>

theorem C8_deterministic:
  assumes "image_data e1 = image_data e2"
    and "result (main e1) = Inr out1" and "result (main e2) = Inr out2"
  shows "out1 = out2"
  using main_Inr [OF assms(2)] main_Inr [OF assms(3)] assms(1) by simp

theorem C8_deterministic_witness:
  "image_data \<lparr>open_image_ok = True, image_data = [255, 0, 0], read_ok = True,
       close_image_ok = True, open_out_ok = True, write_ok = always_ok, close_out_ok = True\<rparr>
     = image_data \<lparr>open_image_ok = True, image_data = [255, 0, 0], read_ok = True,
       close_image_ok = True, open_out_ok = True, write_ok = (\<lambda>f s. length s \<le> 18),
       close_out_ok = True\<rparr> \<and>
   result (main \<lparr>open_image_ok = True, image_data = [255, 0, 0], read_ok = True,
       close_image_ok = True, open_out_ok = True, write_ok = always_ok, close_out_ok = True\<rparr>) = Inr ''0x0000000000000001'' \<and>
   result (main \<lparr>open_image_ok = True, image_data = [255, 0, 0], read_ok = True,
       close_image_ok = True, open_out_ok = True, write_ok = (\<lambda>f s. length s \<le> 18),
       close_out_ok = True\<rparr>) = Inr ''0x0000000000000001'' \<and>
   ''0x0000000000000001'' = ''0x0000000000000001''"
proof -
  let ?e1 = "\<lparr>open_image_ok = True, image_data = [255, 0, 0], read_ok = True,
       close_image_ok = True, open_out_ok = True, write_ok = always_ok, close_out_ok = True\<rparr>"
  let ?e2 = "\<lparr>open_image_ok = True, image_data = [255, 0, 0], read_ok = True,
       close_image_ok = True, open_out_ok = True, write_ok = (\<lambda>f s. length s \<le> 18),
       close_out_ok = True\<rparr>"
  have h1: "image_data ?e1 = image_data ?e2" by simp
  have h2: "result (main ?e1) = Inr ''0x0000000000000001''" by code_simp
  have h3: "result (main ?e2) = Inr ''0x0000000000000001''" by code_simp
  from h1 h2 h3 C8_deterministic [OF h1 h2 h3] show ?thesis by (intro conjI)
qed

text \<open>
  C10.  At the top of iteration \<open>i\<close>, for every pixel \<open>i\<close>, the loop has not failed,
  \<open>0 \<le> numBits \<le> 63\<close> and \<open>0 \<le> bits < 2 ^ numBits\<close> (hence below \<open>2 ^ 64\<close>); the shift
  succeeds and stays below \<open>2 ^ 64\<close>, the new accumulator is in \<open>[0, 2 ^ 64)\<close> and
  formats to exactly 16 digits; the iteration succeeds, and if it flushes (the
  accumulator is full or this is the last pixel) it leaves \<open>bits = 0\<close> and \<open>numBits = 0\<close>.
\<close>

theorem C10_accumulator_invariant:
  assumes "i < length data div 3"
  shows "\<exists>s s'.
     for_loop (loop_body always_ok data (int (length data) div 3)) [0..int i - 1] init_state = Inr s \<and>
     0 \<le> numBits s \<and> numBits s \<le> 63 \<and>
     0 \<le> bits s \<and> bits s < 2 ^ nat (numBits s) \<and> bits s < 2 ^ 64 \<and>
     (\<exists>sh. lshift (if data ! (3 * i) = 255 then 1 else 0) (numBits s) = Inr sh \<and>
        0 \<le> sh \<and> sh < 2 ^ 64 \<and>
        0 \<le> bits s OR sh \<and> bits s OR sh < 2 ^ 64 \<and>
        length (format_016X (bits s OR sh)) = 16) \<and>
     loop_body always_ok data (int (length data) div 3) (int i) s = Inr s' \<and>
     (numBits s + 1 = 64 \<or> int i = int (length data) div 3 - 1
        \<longrightarrow> bits s' = 0 \<and> numBits s' = 0)"
proof -
  define r where "r = i mod 64"
  define s where "s = state_at data i"
  define v :: int where "v = (if data ! (3 * i) = 255 then 1 else 0)"
  define s' where "s' = (if Suc i = length data div 3 then final_state data else state_at data (Suc i))"
  have d: "int (length data) div 3 = int (length data div 3)" by (simp add: zdiv_int)
  have r: "r < 64" by (simp add: r_def)
  have pre: "for_loop (loop_body always_ok data (int (length data) div 3)) [0..int i - 1] init_state = Inr s"
    unfolding d s_def using assms by (rule loop_prefix)
  have nb: "numBits s = int r" unfolding s_def r_def by (rule state_at_inv(1))
  have b0: "0 \<le> bits s" unfolding s_def by (rule state_at_inv(2))
  have b1: "bits s < 2 ^ r" unfolding s_def r_def by (rule state_at_inv(3))
  have b2: "bits s < 2 ^ 64" using b1 r by (intro pow_le_64 [of r]) simp_all
  have sh: "lshift v (numBits s) = Inr (push_bit r v)" unfolding nb by (rule lshift_nat)
  have v: "0 \<le> v" "v < 2 ^ 1" by (simp_all add: v_def)
  have sh0: "0 \<le> push_bit r v" using v(1) by simp
  have "push_bit r v < 2 ^ (r + 1)" using v(2) by (simp add: push_bit_eq_mult v_def)
  then have sh1: "push_bit r v < 2 ^ 64" using r by (intro pow_le_64 [of "r + 1"]) simp_all
  have B: "bits s OR push_bit r v =
      horner_sum of_bool 2 (take (Suc r) (drop (64 * (i div 64)) (red_flags data)))"
    unfolding s_def r_def v_def using assms by (rule step_bits)
  have B0: "0 \<le> bits s OR push_bit r v" unfolding B by (rule horner_take_range(1))
  have "bits s OR push_bit r v < 2 ^ Suc r" unfolding B by (rule horner_take_range(2))
  then have B1: "bits s OR push_bit r v < 2 ^ 64" using r by (intro pow_le_64 [of "Suc r"]) simp_all
  have F: "length (format_016X (bits s OR push_bit r v)) = 16"
    using B0 B1 by (rule format_016X_shape(1))
  have step: "loop_body always_ok data (int (length data) div 3) (int i) s = Inr s'"
  proof (cases "Suc i = length data div 3")
    case True
    then show ?thesis unfolding d s_def s'_def using step_last [OF True] by simp
  next
    case False
    then have "Suc i < length data div 3" using assms by simp
    then show ?thesis unfolding d s_def s'_def using False by (simp add: step_mid)
  qed
  have flush: "numBits s + 1 = 64 \<or> int i = int (length data) div 3 - 1
        \<longrightarrow> bits s' = 0 \<and> numBits s' = 0"
  proof (cases "Suc i = length data div 3")
    case True
    then show ?thesis by (simp add: s'_def final_state_def)
  next
    case False
    then have nl: "int i \<noteq> int (length data) div 3 - 1" unfolding d by linarith
    show ?thesis
    proof
      assume "numBits s + 1 = 64 \<or> int i = int (length data) div 3 - 1"
      then have "r = 63" using nl nb by simp
      then have "i = 64 * (i div 64) + 63" unfolding r_def by (metis mult_div_mod_eq)
      then have "Suc i = 64 * Suc (i div 64) + 0" by simp
      then have "Suc i mod 64 = 0" by (metis mod_mult_self2_is_0 add.right_neutral mult.commute)
      then show "bits s' = 0 \<and> numBits s' = 0" using False by (simp add: s'_def state_at_def)
    qed
  qed
  have nbr: "0 \<le> numBits s" "numBits s \<le> 63" "bits s < 2 ^ nat (numBits s)"
    using r b1 by (simp_all add: nb)
  have inner: "\<exists>sh. lshift (if data ! (3 * i) = 255 then 1 else 0) (numBits s) = Inr sh \<and>
        0 \<le> sh \<and> sh < 2 ^ 64 \<and>
        0 \<le> bits s OR sh \<and> bits s OR sh < 2 ^ 64 \<and>
        length (format_016X (bits s OR sh)) = 16"
    using sh sh0 sh1 B0 B1 F unfolding v_def by (intro exI conjI)
  from pre nbr b0 b2 inner step flush show ?thesis by blast
qed


theorem C10_accumulator_invariant_witness:
  "(0 :: nat) < length [255, 0, 0 :: byte] div 3 \<and>
   int 0 = int (length [255, 0, 0 :: byte]) div 3 - 1 \<and>
   (\<exists>s s'.
     for_loop (loop_body always_ok [255, 0, 0] (int (length [255, 0, 0 :: byte]) div 3))
       [0..int 0 - 1] init_state = Inr s \<and>
     0 \<le> numBits s \<and> numBits s \<le> 63 \<and>
     0 \<le> bits s \<and> bits s < 2 ^ nat (numBits s) \<and> bits s < 2 ^ 64 \<and>
     (\<exists>sh. lshift (if [255, 0, 0 :: byte] ! (3 * 0) = 255 then 1 else 0) (numBits s) = Inr sh \<and>
        0 \<le> sh \<and> sh < 2 ^ 64 \<and>
        0 \<le> bits s OR sh \<and> bits s OR sh < 2 ^ 64 \<and>
        length (format_016X (bits s OR sh)) = 16) \<and>
     loop_body always_ok [255, 0, 0] (int (length [255, 0, 0 :: byte]) div 3) (int 0) s = Inr s' \<and>
     bits s' = 0 \<and> numBits s' = 0)"
proof -
  have h: "(0 :: nat) < length [255, 0, 0 :: byte] div 3" by simp
  have l: "int 0 = int (length [255, 0, 0 :: byte]) div 3 - 1" by simp
  from C10_accumulator_invariant [OF h] l h show ?thesis by blast
qed

end
